theory Spec2Isabelle
  imports Complex_Main "HOL-Library.AList" "HOL-Library.Log_Nat"
begin

section \<open>JavaScript helpers used by the embedded code\<close>

text \<open>
  \<open>Array.prototype.slice(start)\<close> with one argument: a negative start counts from the
  end of the array and is clamped at the beginning; a start beyond the end gives the
  empty array.
\<close>

definition js_slice_from :: "int \<Rightarrow> 'a list \<Rightarrow> 'a list" where
  "js_slice_from start xs =
     (if start < 0 then drop (nat (int (length xs) + start)) xs else drop (nat start) xs)"

text \<open>
  Reading \<open>xs[i]\<close>: \<open>undefined\<close> (here \<open>None\<close>) outside the array.
\<close>

definition js_index :: "'a list \<Rightarrow> int \<Rightarrow> 'a option" where
  "js_index xs i = (if 0 \<le> i \<and> i < int (length xs) then Some (xs ! nat i) else None)"

text \<open>
  A JavaScript number is an IEEE 754 binary64 value. The integers of this code
  (millisecond clock readings, counters, array lengths, sums of latencies) are exact in
  that format below \<open>2 ^ 53\<close> and are modelled by \<^typ>\<open>int\<close> and \<^typ>\<open>nat\<close>. A
  division or a product whose result need not be an integer is rounded to the nearest
  binary64 value, a tie to the even significand: \<open>toDouble\<close> of the exact rational
  result. For a non-zero \<open>x\<close> with \<open>2 ^ e \<le> \<bar>x\<bar> < 2 ^ (e + 1)\<close> that is the
  multiple of \<open>2 ^ (e - 52)\<close> nearest to \<open>x\<close>. Magnitudes stay in the normal range
  here (no overflow to infinity, no subnormal numbers).
\<close>

definition pow2 :: "int \<Rightarrow> rat" where
  "pow2 e = (if 0 \<le> e then 2 ^ nat e else 1 / 2 ^ nat (- e))"

text \<open>The binary exponent \<open>\<lfloor>log\<^sub>2 m\<rfloor>\<close> of a positive rational.\<close>

definition ilog2 :: "rat \<Rightarrow> int" where
  "ilog2 m = (if 1 \<le> m then bitlen \<lfloor>m\<rfloor> - 1 else - bitlen (\<lceil>1 / m\<rceil> - 1))"

definition roundHalfEven :: "rat \<Rightarrow> int" where
  "roundHalfEven y =
     (let f = \<lfloor>y\<rfloor>; d = y - of_int f
      in if d < 1 / 2 then f else if 1 / 2 < d then f + 1 else if even f then f else f + 1)"

definition toDouble :: "rat \<Rightarrow> rat" where
  "toDouble x =
     (if x = 0 then 0
      else (let m = \<bar>x\<bar>;
                e = ilog2 m - 52;
                q = roundHalfEven (m / pow2 e)
            in sgn x * of_int q * pow2 e))"

text \<open>
  \<open>Math.round\<close> rounds to the nearest integer, a tie towards plus infinity, which is
  \<^const>\<open>round\<close>.
\<close>

definition Math_round :: "rat \<Rightarrow> rat" where
  "Math_round x = of_int (round x)"

text \<open>
  Strings are lists of \<^typ>\<open>char\<close>, read as UTF-16 code units below 256. The white
  space that \<open>parseInt\<close> and \<open>BigInt\<close> strip is, in that range, TAB, LF, VT, FF, CR,
  SP and NBSP.
\<close>

definition isWhiteSpace :: "char \<Rightarrow> bool" where
  "isWhiteSpace c = ((of_char c :: nat) \<in> {9, 10, 11, 12, 13, 32, 160})"

text \<open>The value of a digit in the given radix (at most 16), letters in either case.\<close>

definition digitOf :: "nat \<Rightarrow> char \<Rightarrow> nat option" where
  "digitOf radix c =
     (let n = (of_char c :: nat);
          v = (if 48 \<le> n \<and> n \<le> 57 then Some (n - 48)
               else if 97 \<le> n \<and> n \<le> 102 then Some (n - 87)
               else if 65 \<le> n \<and> n \<le> 70 then Some (n - 55)
               else None)
      in case v of None \<Rightarrow> None | Some d \<Rightarrow> if d < radix then Some d else None)"

fun parseDigitsAcc :: "nat \<Rightarrow> int \<Rightarrow> string \<Rightarrow> int option" where
  "parseDigitsAcc radix acc [] = Some acc"
| "parseDigitsAcc radix acc (c # cs) =
     (case digitOf radix c of
        None \<Rightarrow> None
      | Some d \<Rightarrow> parseDigitsAcc radix (int radix * acc + int d) cs)"

definition parseDigits :: "nat \<Rightarrow> string \<Rightarrow> int option" where
  "parseDigits radix str = (if str = [] then None else parseDigitsAcc radix 0 str)"

text \<open>
  \<open>Number.parseInt(str, 16)\<close>: leading white space, a sign, a \<open>0x\<close> prefix, then the
  longest run of hexadecimal digits; \<open>NaN\<close> (here \<open>None\<close>) when that run is empty.
\<close>

definition parseInt16 :: "string \<Rightarrow> int option" where
  "parseInt16 str =
     (let s1 = dropWhile isWhiteSpace str;
          sgn = (case s1 of c # _ \<Rightarrow> if c = CHR ''-'' then - 1 else 1 | [] \<Rightarrow> (1 :: int));
          s2 = (case s1 of c # r \<Rightarrow> if c = CHR ''-'' \<or> c = CHR ''+'' then r else s1 | [] \<Rightarrow> s1);
          s3 = (case s2 of
                  c0 # c1 # r \<Rightarrow>
                    if c0 = CHR ''0'' \<and> (c1 = CHR ''x'' \<or> c1 = CHR ''X'') then r else s2
                | _ \<Rightarrow> s2);
          ds = takeWhile (\<lambda>c. digitOf 16 c \<noteq> None) s3
      in case parseDigits 16 ds of None \<Rightarrow> None | Some v \<Rightarrow> Some (sgn * v))"

text \<open>Storing a number into a \<open>Uint8Array\<close>: \<open>NaN\<close> becomes 0, the rest wraps modulo 256.\<close>

definition toUint8 :: "int option \<Rightarrow> int" where
  "toUint8 v = (case v of None \<Rightarrow> 0 | Some n \<Rightarrow> n mod 256)"

text \<open>
  \<open>BigInt(str)\<close> on a string: white space trimmed at both ends, the empty string is 0,
  then either a prefixed hexadecimal, octal or binary literal or a decimal literal with
  an optional sign; anything else throws a \<open>SyntaxError\<close> (here \<open>None\<close>).
\<close>

definition signedDecimal :: "string \<Rightarrow> int option" where
  "signedDecimal str =
     (case str of
        [] \<Rightarrow> None
      | c # r \<Rightarrow>
          if c = CHR ''+'' then parseDigits 10 r
          else if c = CHR ''-'' then map_option uminus (parseDigits 10 r)
          else parseDigits 10 str)"

definition BigInt :: "string \<Rightarrow> int option" where
  "BigInt str =
     (let s = rev (dropWhile isWhiteSpace (rev (dropWhile isWhiteSpace str)))
      in if s = [] then Some 0
         else (case s of
                 c0 # c1 # r \<Rightarrow>
                   if c0 = CHR ''0'' \<and> (c1 = CHR ''x'' \<or> c1 = CHR ''X'') then parseDigits 16 r
                   else if c0 = CHR ''0'' \<and> (c1 = CHR ''o'' \<or> c1 = CHR ''O'') then parseDigits 8 r
                   else if c0 = CHR ''0'' \<and> (c1 = CHR ''b'' \<or> c1 = CHR ''B'') then parseDigits 2 r
                   else signedDecimal s
               | _ \<Rightarrow> signedDecimal s))"

text \<open>The decimal text of a bigint, as a template literal prints it.\<close>

fun natToString :: "nat \<Rightarrow> string" where
  "natToString n =
     (if n < 10 then [char_of (48 + n)]
      else natToString (n div 10) @ [char_of (48 + n mod 10)])"

declare natToString.simps [simp del]

definition bigintToString :: "int \<Rightarrow> string" where
  "bigintToString i = (if i < 0 then CHR ''-'' # natToString (nat (- i)) else natToString (nat i))"

text \<open>\<open>str.slice(a, b)\<close> for indices \<open>0 \<le> a \<le> b\<close>.\<close>

definition js_substr :: "string \<Rightarrow> nat \<Rightarrow> nat \<Rightarrow> string" where
  "js_substr str a b = take (b - a) (drop a str)"

section \<open>EventEmitter (server/src/events.ts)\<close>

text \<open>
  The emitter keeps a set of WebSocket connections (a JavaScript \<open>Set\<close>, iterated in
  insertion order: a duplicate-free list here) and the event log. Events are opaque to
  the emitter, so the event type is a parameter. A connection is identified by a number;
  whether \<open>ws.send\<close> throws on it is an input of \<open>emit\<close>. A message handed to
  \<open>ws.send\<close> is the JSON text of either a history object or a single event.
\<close>

type_synonym ws = nat

datatype 'e message = History "'e list" | Single 'e

record 'e EventEmitter =
  connections :: "ws list"
  eventLog :: "'e list"

definition maxLogSize :: int where
  "maxLogSize = 1000"

definition newEventEmitter :: "'e EventEmitter" where
  "newEventEmitter = \<lparr>connections = [], eventLog = []\<rparr>"

definition set_add :: "ws \<Rightarrow> ws list \<Rightarrow> ws list" where
  "set_add w cs = (if w \<in> set cs then cs else cs @ [w])"

text \<open>
  \<open>addConnection\<close> returns the new emitter and the message it sends to the new
  connection, if any.
\<close>

definition addConnection :: "ws \<Rightarrow> 'e EventEmitter \<Rightarrow> 'e EventEmitter \<times> 'e message option" where
  "addConnection w em =
     (let em' = em\<lparr>connections := set_add w (connections em)\<rparr>
      in if length (eventLog em') > 0
         then (em', Some (History (js_slice_from (- 100) (eventLog em'))))
         else (em', None))"

definition removeConnection :: "ws \<Rightarrow> 'e EventEmitter \<Rightarrow> 'e EventEmitter" where
  "removeConnection w em = em\<lparr>connections := removeAll w (connections em)\<rparr>"

text \<open>
  \<open>emit\<close> appends to the log, compacts it when it has grown beyond \<open>maxLogSize\<close>, and
  broadcasts; a connection whose \<open>send\<close> throws is dropped. The result carries the
  deliveries that went through.
\<close>

definition emit :: "(ws \<Rightarrow> bool) \<Rightarrow> 'e \<Rightarrow> 'e EventEmitter \<Rightarrow> 'e EventEmitter \<times> (ws \<times> 'e message) list" where
  "emit sendThrows event em =
     (let pushed = eventLog em @ [event];
          log' = (if int (length pushed) > maxLogSize
                  then js_slice_from (- maxLogSize div 2) pushed
                  else pushed);
          alive = filter (\<lambda>w. \<not> sendThrows w) (connections em)
      in (em\<lparr>connections := alive, eventLog := log'\<rparr>, map (\<lambda>w. (w, Single event)) alive))"

definition getRecentEvents :: "int \<Rightarrow> 'e EventEmitter \<Rightarrow> 'e list" where
  "getRecentEvents count em = js_slice_from (- count) (eventLog em)"

text \<open>The calls a server makes on the emitter, and a run of them from a given emitter.\<close>

datatype 'e emitter_call =
    AddConnection ws
  | RemoveConnection ws
  | Emit "ws \<Rightarrow> bool" 'e

fun emitter_step :: "'e EventEmitter \<Rightarrow> 'e emitter_call \<Rightarrow> 'e EventEmitter" where
  "emitter_step em (AddConnection w) = fst (addConnection w em)"
| "emitter_step em (RemoveConnection w) = removeConnection w em"
| "emitter_step em (Emit sendThrows event) = fst (emit sendThrows event em)"

definition emitter_run :: "'e emitter_call list \<Rightarrow> 'e EventEmitter" where
  "emitter_run calls = foldl emitter_step newEventEmitter calls"

section \<open>MetricsCollector (simulator/src/metrics.ts)\<close>

record RequestResult =
  success :: bool
  agentId :: string
  endpoint :: string
  txHash :: "string option"
  latencyMs :: int
  paymentLatencyMs :: "int option"
  error :: "string option"
  timestamp :: int

text \<open>
  The fields of \<open>AgentMetrics\<close> and \<open>PoolMetrics\<close> that share a name with a field of
  another interface carry the prefix \<open>am_\<close> or \<open>pm_\<close>.
\<close>

record AgentMetrics =
  am_agentId :: string
  address :: string
  totalRequests :: nat
  successfulRequests :: nat
  failedRequests :: nat
  totalLatencyMs :: int
  totalPaymentLatencyMs :: int
  balance :: int
  lastRequestTime :: int

record PoolMetrics =
  pm_totalRequests :: nat
  pm_successfulRequests :: nat
  pm_failedRequests :: nat
  avgLatencyMs :: rat
  p50LatencyMs :: "int option"
  p95LatencyMs :: "int option"
  p99LatencyMs :: "int option"
  currentTps :: rat
  agents :: "AgentMetrics list"
  pm_startTime :: int
  elapsedMs :: int

text \<open>
  \<open>agentMetrics\<close> is a JavaScript \<open>Map\<close>: an association list in insertion order, where
  setting an existing key replaces its value in place (\<^const>\<open>AList.update\<close>).
\<close>

record MetricsCollector =
  agentMetrics :: "(string \<times> AgentMetrics) list"
  latencies :: "int list"
  recentRequests :: "int list"
  startTime :: int

definition TPS_WINDOW_MS :: int where
  "TPS_WINDOW_MS = 1000"

definition newMetricsCollector :: MetricsCollector where
  "newMetricsCollector = \<lparr>agentMetrics = [], latencies = [], recentRequests = [], startTime = 0\<rparr>"

text \<open>\<open>start\<close> reads the clock; the reading is the argument \<open>now\<close>.\<close>

definition start :: "int \<Rightarrow> MetricsCollector \<Rightarrow> MetricsCollector" where
  "start now mc = mc\<lparr>startTime := now, latencies := [], recentRequests := []\<rparr>"

definition registerAgent :: "string \<Rightarrow> string \<Rightarrow> MetricsCollector \<Rightarrow> MetricsCollector" where
  "registerAgent aid addr mc =
     mc\<lparr>agentMetrics := AList.update aid
          \<lparr>am_agentId = aid, address = addr, totalRequests = 0, successfulRequests = 0,
           failedRequests = 0, totalLatencyMs = 0, totalPaymentLatencyMs = 0, balance = 0,
           lastRequestTime = 0\<rparr>
          (agentMetrics mc)\<rparr>"

text \<open>
  \<open>recordRequest\<close> returns at once for an agent id that is not in the map. Otherwise it
  updates the agent's entry, which the map holds by reference, and pushes the latency
  and the timestamp; \<open>if (result.paymentLatencyMs)\<close> is false for an absent value and
  for 0.
\<close>

definition recordRequest :: "RequestResult \<Rightarrow> MetricsCollector \<Rightarrow> MetricsCollector" where
  "recordRequest result mc =
     (case map_of (agentMetrics mc) (agentId result) of
        None \<Rightarrow> mc
      | Some metrics \<Rightarrow>
          (let m1 = metrics\<lparr>totalRequests := totalRequests metrics + 1,
                            lastRequestTime := timestamp result,
                            totalLatencyMs := totalLatencyMs metrics + latencyMs result\<rparr>;
               m2 = (case paymentLatencyMs result of
                       None \<Rightarrow> m1
                     | Some pl \<Rightarrow>
                         if pl \<noteq> 0
                         then m1\<lparr>totalPaymentLatencyMs := totalPaymentLatencyMs m1 + pl\<rparr>
                         else m1);
               m3 = (if success result
                     then m2\<lparr>successfulRequests := successfulRequests m2 + 1\<rparr>
                     else m2\<lparr>failedRequests := failedRequests m2 + 1\<rparr>);
               pushed = latencies mc @ [latencyMs result]
           in mc\<lparr>agentMetrics := AList.update (agentId result) m3 (agentMetrics mc),
                 latencies := (if length pushed > 10000 then js_slice_from (- 5000) pushed
                               else pushed),
                 recentRequests := recentRequests mc @ [timestamp result]\<rparr>))"

definition updateAgentBalance :: "string \<Rightarrow> int \<Rightarrow> MetricsCollector \<Rightarrow> MetricsCollector" where
  "updateAgentBalance aid b mc =
     (case map_of (agentMetrics mc) aid of
        None \<Rightarrow> mc
      | Some metrics \<Rightarrow>
          mc\<lparr>agentMetrics := AList.update aid (metrics\<lparr>balance := b\<rparr>) (agentMetrics mc)\<rparr>)"

text \<open>
  \<open>percentile\<close>, the same text in the collector and in the dashboard hook
  (frontend/src/hooks/useMetrics.ts). \<open>p\<close> is a binary64 value; the quotient
  \<open>p / 100\<close> and its product with the length are each rounded to binary64 before
  \<open>Math.ceil\<close>. Only the lower end of the index is clamped.
\<close>

definition percentile :: "int list \<Rightarrow> rat \<Rightarrow> int option" where
  "percentile samples p =
     (if length samples = 0 then Some 0
      else (let idx = \<lceil>toDouble (toDouble (p / 100) * of_nat (length samples))\<rceil> - 1
            in js_index samples (max 0 idx)))"

text \<open>
  \<open>getPoolMetrics\<close> reads the clock (the argument \<open>now\<close>), prunes \<open>recentRequests\<close> to
  the window and returns the figures. \<open>sort((a, b) => a - b)\<close> is the ascending numeric
  sort. The average and its rounding to two decimals go through binary64; the
  throughput figure is a count divided by \<open>1000 / 1000 = 1\<close>, times 10, rounded and
  divided by 10 again, which is exact.
\<close>

definition getPoolMetrics :: "int \<Rightarrow> MetricsCollector \<Rightarrow> MetricsCollector \<times> PoolMetrics" where
  "getPoolMetrics now mc =
     (let ags = map snd (agentMetrics mc);
          sortedLatencies = sort (latencies mc);
          avg = (if length sortedLatencies > 0
                 then toDouble (of_int (sum_list sortedLatencies)
                                / of_nat (length sortedLatencies))
                 else 0);
          windowStart = now - TPS_WINDOW_MS;
          recent = filter (\<lambda>t. t > windowStart) (recentRequests mc);
          tps = of_nat (length recent) / (of_int TPS_WINDOW_MS / 1000)
      in (mc\<lparr>recentRequests := recent\<rparr>,
          \<lparr>pm_totalRequests = sum_list (map totalRequests ags),
           pm_successfulRequests = sum_list (map successfulRequests ags),
           pm_failedRequests = sum_list (map failedRequests ags),
           avgLatencyMs = toDouble (Math_round (toDouble (avg * 100)) / 100),
           p50LatencyMs = percentile sortedLatencies 50,
           p95LatencyMs = percentile sortedLatencies 95,
           p99LatencyMs = percentile sortedLatencies 99,
           currentTps = Math_round (tps * 10) / 10,
           agents = ags,
           pm_startTime = startTime mc,
           elapsedMs = now - startTime mc\<rparr>))"

text \<open>The calls the pool makes on a started collector, and a run of them.\<close>

datatype collector_call =
    RegisterAgent string string
  | RecordRequest RequestResult
  | UpdateAgentBalance string int
  | GetPoolMetrics int

fun collector_step :: "MetricsCollector \<Rightarrow> collector_call \<Rightarrow> MetricsCollector" where
  "collector_step mc (RegisterAgent aid addr) = registerAgent aid addr mc"
| "collector_step mc (RecordRequest result) = recordRequest result mc"
| "collector_step mc (UpdateAgentBalance aid b) = updateAgentBalance aid b mc"
| "collector_step mc (GetPoolMetrics now) = fst (getPoolMetrics now mc)"

text \<open>
  The results that \<open>recordRequest\<close> takes in during a run: those whose agent is
  registered when the call is made.
\<close>

fun recorded :: "MetricsCollector \<Rightarrow> collector_call list \<Rightarrow> RequestResult list" where
  "recorded mc [] = []"
| "recorded mc (RecordRequest result # calls) =
     (if map_of (agentMetrics mc) (agentId result) = None then []
      else [result]) @ recorded (recordRequest result mc) calls"
| "recorded mc (call # calls) = recorded (collector_step mc call) calls"

text \<open>
  The throughput figure as the specification words it: the successful requests whose
  timestamp lies in the trailing window.
\<close>

definition successfulInWindow :: "int \<Rightarrow> RequestResult list \<Rightarrow> nat" where
  "successfulInWindow now results =
     length (filter (\<lambda>r. success r \<and> now - 1000 < timestamp r) results)"

text \<open>A failed request of a registered agent, used as a concrete input below.\<close>

definition failed500 :: RequestResult where
  "failed500 = \<lparr>success = False, agentId = ''agent-0'', endpoint = ''POST /api/transform/echo'',
     txHash = None, latencyMs = 12, paymentLatencyMs = None,
     error = Some ''Unexpected status: 500'', timestamp = 500\<rparr>"

section \<open>EvolveFacilitatorClient (server/src/x402/evolve-facilitator.ts)\<close>

text \<open>
  The ledger client is an input. A call on it returns a value, \<open>null\<close> (\<open>None\<close>) or
  throws (\<open>Inl\<close> with the message). Of the payload and of the requirements only the
  fields the facilitator reads are kept. The response fields that share a name with
  another interface carry the prefix \<open>settle_\<close>.
\<close>

record Receipt =
  status :: string
  receipt_from :: string

record Transaction =
  input :: string

record EvolveClient =
  getTransactionReceipt :: "string \<Rightarrow> string + Receipt option"
  getTransaction :: "string \<Rightarrow> string + Transaction option"

record PaymentPayload =
  payload_txHash :: string

record PaymentRequirements =
  amount :: string
  payTo :: string

record VerifyResponse =
  isValid :: bool
  invalidReason :: "string option"
  payer :: "string option"

record SettleResponse =
  settle_success :: bool
  settle_transaction :: string
  settle_network :: string
  settle_payer :: string

record Facilitator =
  usedTxHashes :: "string \<rightharpoonup> int"
  network :: string

definition TX_HASH_TTL_MS :: int where
  "TX_HASH_TTL_MS = 3600000"

definition newFacilitator :: "string \<Rightarrow> Facilitator" where
  "newFacilitator net = \<lparr>usedTxHashes = Map.empty, network = net\<rparr>"

definition invalid :: "string \<Rightarrow> VerifyResponse" where
  "invalid reason = \<lparr>isValid = False, invalidReason = Some reason, payer = None\<rparr>"

definition valid :: "string \<Rightarrow> VerifyResponse" where
  "valid p = \<lparr>isValid = True, invalidReason = None, payer = Some p\<rparr>"

text \<open>\<open>evictStale\<close> deletes every entry older than the TTL at the clock reading \<open>now\<close>.\<close>

definition evictStale :: "int \<Rightarrow> Facilitator \<Rightarrow> Facilitator" where
  "evictStale now fc =
     fc\<lparr>usedTxHashes :=
          (\<lambda>hash. case usedTxHashes fc hash of
                     None \<Rightarrow> None
                   | Some ts \<Rightarrow> if now - ts > TX_HASH_TTL_MS then None else Some ts)\<rparr>"

text \<open>
  The amount in the calldata: the 16 bytes after the selector and the account id, read
  by \<open>parseInt\<close> two characters at a time into a \<open>Uint8Array\<close> and combined little-endian.
\<close>

definition amountBytes :: "string \<Rightarrow> int list" where
  "amountBytes amountHex =
     map (\<lambda>i. toUint8 (parseInt16 (js_substr amountHex (i * 2) (i * 2 + 2)))) [0 ..< 16]"

definition transferAmountOf :: "string \<Rightarrow> int" where
  "transferAmountOf inp =
     foldl (\<lambda>acc b. or (push_bit 8 acc) b) 0 (rev (amountBytes (drop (2 + 72) inp)))"

text \<open>The body of the \<open>try\<close> block of \<open>verify\<close>; a throw inside it is caught.\<close>

definition verifyOnLedger :: "EvolveClient \<Rightarrow> string \<Rightarrow> PaymentRequirements \<Rightarrow> VerifyResponse" where
  "verifyOnLedger client hash paymentRequirements =
     (case getTransactionReceipt client hash of
        Inl err \<Rightarrow> invalid ''Verification failed''
      | Inr None \<Rightarrow> invalid ''Transaction not found''
      | Inr (Some receipt) \<Rightarrow>
          if status receipt \<noteq> ''success'' then invalid ''Transaction failed''
          else (case getTransaction client hash of
                  Inl err \<Rightarrow> invalid ''Verification failed''
                | Inr None \<Rightarrow> invalid ''Transaction data not found''
                | Inr (Some tx) \<Rightarrow>
                    if length (input tx) < 106
                    then invalid ''Transaction calldata too short for token transfer''
                    else (let transferAmount = transferAmountOf (input tx)
                          in case BigInt (amount paymentRequirements) of
                               None \<Rightarrow> invalid ''Verification failed''
                             | Some requiredAmount \<Rightarrow>
                                 if transferAmount < requiredAmount
                                 then invalid (''Insufficient payment: got ''
                                        @ bigintToString transferAmount @ '', need ''
                                        @ bigintToString requiredAmount)
                                 else valid (receipt_from receipt))))"

text \<open>
  \<open>verify\<close> and \<open>settle\<close> read the clock once, before their first \<open>await\<close>; the reading
  is the argument \<open>now\<close>, and the answers of the ledger are those of \<open>client\<close>. Both
  touch \<open>usedTxHashes\<close> only before that first \<open>await\<close>.
\<close>

definition verify ::
  "EvolveClient \<Rightarrow> int \<Rightarrow> PaymentPayload \<Rightarrow> PaymentRequirements \<Rightarrow> Facilitator
     \<Rightarrow> Facilitator \<times> VerifyResponse" where
  "verify client now paymentPayload paymentRequirements fc =
     (let fc' = evictStale now fc;
          hash = payload_txHash paymentPayload
      in if hash = [] then (fc', invalid ''Missing transaction hash'')
         else if usedTxHashes fc' hash \<noteq> None then (fc', invalid ''Transaction already used'')
         else (fc', verifyOnLedger client hash paymentRequirements))"

definition settle ::
  "EvolveClient \<Rightarrow> int \<Rightarrow> PaymentPayload \<Rightarrow> PaymentRequirements \<Rightarrow> Facilitator
     \<Rightarrow> Facilitator \<times> SettleResponse" where
  "settle client now paymentPayload paymentRequirements fc =
     (let hash = payload_txHash paymentPayload;
          fc' = fc\<lparr>usedTxHashes := (usedTxHashes fc)(hash \<mapsto> now)\<rparr>;
          p = (case getTransactionReceipt client hash of
                 Inr (Some receipt) \<Rightarrow> receipt_from receipt
               | _ \<Rightarrow> hash)
      in (fc', \<lparr>settle_success = True, settle_transaction = hash,
                settle_network = network fc, settle_payer = p\<rparr>))"

text \<open>
  Calls on one facilitator, each with the ledger answers and the clock reading it sees,
  and a run of them that collects the responses.
\<close>

datatype facilitator_call =
    Verify EvolveClient int PaymentPayload PaymentRequirements
  | Settle EvolveClient int PaymentPayload PaymentRequirements

datatype facilitator_response = Verified VerifyResponse | Settled SettleResponse

fun call_time :: "facilitator_call \<Rightarrow> int" where
  "call_time (Verify client now pp pr) = now"
| "call_time (Settle client now pp pr) = now"

fun call_txHash :: "facilitator_call \<Rightarrow> string" where
  "call_txHash (Verify client now pp pr) = payload_txHash pp"
| "call_txHash (Settle client now pp pr) = payload_txHash pp"

fun is_settle :: "facilitator_call \<Rightarrow> bool" where
  "is_settle (Verify client now pp pr) = False"
| "is_settle (Settle client now pp pr) = True"

fun facilitator_step :: "Facilitator \<Rightarrow> facilitator_call \<Rightarrow> Facilitator \<times> facilitator_response" where
  "facilitator_step fc (Verify client now pp pr) =
     (let (fc', r) = verify client now pp pr fc in (fc', Verified r))"
| "facilitator_step fc (Settle client now pp pr) =
     (let (fc', r) = settle client now pp pr fc in (fc', Settled r))"

fun facilitator_run :: "Facilitator \<Rightarrow> facilitator_call list \<Rightarrow> Facilitator \<times> facilitator_response list" where
  "facilitator_run fc [] = (fc, [])"
| "facilitator_run fc (c # cs) =
     (let (fc', r) = facilitator_step fc c;
          (fc'', rs) = facilitator_run fc' cs
      in (fc'', r # rs))"

text \<open>
  A run is gated when every \<open>settle\<close> of a transaction hash comes after a \<open>verify\<close> of
  that hash that answered valid, with no other \<open>settle\<close> of the hash in between: the
  order in which the payment middleware calls the facilitator when the requests that
  carry one hash are handled one after the other. \<open>armed\<close> lists the hashes that a
  \<open>verify\<close> has answered valid for since their last \<open>settle\<close>.
\<close>

fun gated_from :: "string list \<Rightarrow> Facilitator \<Rightarrow> facilitator_call list \<Rightarrow> bool" where
  "gated_from armed fc [] = True"
| "gated_from armed fc (c # cs) =
     ((is_settle c \<longrightarrow> call_txHash c \<in> set armed) \<and>
      gated_from
        (case snd (facilitator_step fc c) of
           Verified r \<Rightarrow> if isValid r then call_txHash c # armed else armed
         | Settled r \<Rightarrow> removeAll (call_txHash c) armed)
        (fst (facilitator_step fc c)) cs)"

definition gated :: "Facilitator \<Rightarrow> facilitator_call list \<Rightarrow> bool" where
  "gated fc cs = gated_from [] fc cs"

text \<open>Concrete inputs used below: a ledger that knows one paid transaction.\<close>

definition paidInput :: string where
  "paidInput = ''0x'' @ replicate 72 CHR ''0'' @ ''64'' @ replicate 30 CHR ''0''"

definition demoClient :: EvolveClient where
  "demoClient =
     \<lparr>getTransactionReceipt =
        (\<lambda>h. if h = ''0xaa'' then Inr (Some \<lparr>status = ''success'', receipt_from = ''0xpayer''\<rparr>)
              else Inr None),
      getTransaction =
        (\<lambda>h. if h = ''0xaa'' then Inr (Some \<lparr>input = paidInput\<rparr>) else Inr None)\<rparr>"

definition demoPayload :: PaymentPayload where
  "demoPayload = \<lparr>payload_txHash = ''0xaa''\<rparr>"

definition demoRequirements :: PaymentRequirements where
  "demoRequirements = \<lparr>amount = ''100'', payTo = ''0x01''\<rparr>"

definition demoPayTo :: string where
  "demoPayTo = ''0x0000000000000000000000000000000000000001''"

definition demoFacilitator :: Facilitator where
  "demoFacilitator = newFacilitator ''evolve:1337''"

definition otherPayload :: PaymentPayload where
  "otherPayload = \<lparr>payload_txHash = ''0xbb''\<rparr>"

section \<open>Agent.submitPayment (simulator/src/agent.ts)\<close>

text \<open>
  \<open>RegExp.test\<close> with the \<open>i\<close> flag for a pattern that is a plain lower-case text: does
  the text occur in the message, letters compared without case.
\<close>

definition toLowerAscii :: "char \<Rightarrow> char" where
  "toLowerAscii c =
     (let n = (of_char c :: nat) in if 65 \<le> n \<and> n \<le> 90 then char_of (n + 32) else c)"

fun occursIn :: "string \<Rightarrow> string \<Rightarrow> bool" where
  "occursIn pat [] = (pat = [])"
| "occursIn pat (c # cs) = (take (length pat) (c # cs) = pat \<or> occursIn pat cs)"

definition testIgnoreCase :: "string \<Rightarrow> string \<Rightarrow> bool" where
  "testIgnoreCase pat msg = occursIn pat (map toLowerAscii msg)"

text \<open>
  \<open>msg.match(/"params":\["(0x[0-9a-fA-F]+)"\]/)\<close>: the first place where the quoted
  raw transaction occurs, and its capture group.
\<close>

definition rawTxPrefix :: string where
  "rawTxPrefix = [CHR 0x22] @ ''params'' @ [CHR 0x22] @ '':['' @ [CHR 0x22] @ ''0x''"

definition rawTxHere :: "string \<Rightarrow> string option" where
  "rawTxHere str =
     (if take (length rawTxPrefix) str = rawTxPrefix
      then (let r = drop (length rawTxPrefix) str;
                ds = takeWhile (\<lambda>c. digitOf 16 c \<noteq> None) r;
                after = dropWhile (\<lambda>c. digitOf 16 c \<noteq> None) r
            in if ds \<noteq> [] \<and> take 2 after = [CHR 0x22, CHR '']'']
               then Some (''0x'' @ ds) else None)
      else None)"

fun rawTxMatch :: "string \<Rightarrow> string option" where
  "rawTxMatch [] = None"
| "rawTxMatch (c # cs) =
     (case rawTxHere (c # cs) of Some raw \<Rightarrow> Some raw | None \<Rightarrow> rawTxMatch cs)"

text \<open>
  One agent runs several worker loops on one event loop. A call of \<open>submitPayment\<close>
  runs without interruption from one \<open>await\<close> to the next; between two such stretches
  any other worker may run. A call that is waiting is at one of these places; the one
  that waits for the first count keeps its argument \<open>to\<close> for the stretch after it.
\<close>

datatype suspended =
    AwaitCount string
  | AwaitSend nat
  | AwaitReceipt string
  | AwaitResync string

datatype 'a settled = Fulfilled 'a | Rejected string

datatype outcome = Returned string | Threw string

text \<open>
  What the scheduler delivers: a worker enters \<open>submitPayment\<close> (the number names the
  call, the text is the argument \<open>to\<close>), or the promise a call is waiting for settles.
  The argument \<open>amount\<close> only goes into the calldata and is left out.
\<close>

datatype agent_event =
    Call nat string
  | CountSettled nat "nat settled"
  | SendSettled nat "string settled"
  | ReceiptSettled nat "unit settled"

text \<open>What a stretch of a call does to the outside.\<close>

datatype effect =
    GetTransactionCount nat
  | SendTransaction nat nat
  | WaitForReceipt nat string
  | Finished nat outcome

record Agent =
  nextNonce :: "nat option"
  waiting :: "nat \<rightharpoonup> suspended"

definition newAgent :: Agent where
  "newAgent = \<lparr>nextNonce = None, waiting = Map.empty\<rparr>"

text \<open>
  The stretch from the claim of the nonce to the \<open>await\<close> of \<open>sendTransaction\<close>: the
  counter is read and incremented with no \<open>await\<close> in between. It is entered with the
  counter set.
\<close>

definition claimAndSend :: "nat \<Rightarrow> nat \<Rightarrow> Agent \<Rightarrow> Agent \<times> effect list" where
  "claimAndSend cid counter ag =
     (let nonce = counter
      in (ag\<lparr>nextNonce := Some (nonce + 1), waiting := (waiting ag)(cid \<mapsto> AwaitSend nonce)\<rparr>,
          [SendTransaction cid nonce]))"

definition finish :: "nat \<Rightarrow> outcome \<Rightarrow> Agent \<Rightarrow> Agent \<times> effect list" where
  "finish cid out ag = (ag\<lparr>waiting := (waiting ag)(cid := None)\<rparr>, [Finished cid out])"

text \<open>
  \<open>addressToAccountId\<close> (simulator/src/evolve-utils.ts) drops the \<open>0x\<close> and the next
  eight characters and reads the rest as a hexadecimal bigint; \<open>BigInt\<close> throws a
  \<open>SyntaxError\<close> when that is not a hexadecimal literal.
\<close>

definition addressToAccountId :: "string \<Rightarrow> int option" where
  "addressToAccountId addr = BigInt (''0x'' @ js_slice_from 8 (js_slice_from 2 addr))"

text \<open>
  The stretch that builds the transfer and then claims the nonce. A throw of
  \<open>addressToAccountId\<close> leaves \<open>submitPayment\<close> before the claim.
\<close>

definition buildAndClaim :: "nat \<Rightarrow> string \<Rightarrow> nat \<Rightarrow> Agent \<Rightarrow> Agent \<times> effect list" where
  "buildAndClaim cid to counter ag =
     (case addressToAccountId to of
        None \<Rightarrow> finish cid (Threw ''SyntaxError'') ag
      | Some payToAccountId \<Rightarrow> claimAndSend cid counter ag)"

text \<open>The \<open>catch\<close> block around \<open>sendTransaction\<close>.\<close>

definition sendRejected ::
  "(string \<Rightarrow> string) \<Rightarrow> nat \<Rightarrow> nat \<Rightarrow> string \<Rightarrow> Agent \<Rightarrow> Agent \<times> effect list" where
  "sendRejected keccak256 cid nonce msg ag =
     (case (if testIgnoreCase ''transaction already in mempool'' msg \<or>
               testIgnoreCase ''already known'' msg
            then rawTxMatch msg else None) of
        Some raw \<Rightarrow>
          (ag\<lparr>waiting := (waiting ag)(cid \<mapsto> AwaitReceipt (keccak256 raw))\<rparr>,
           [WaitForReceipt cid (keccak256 raw)])
      | None \<Rightarrow>
          if testIgnoreCase ''nonce too high'' msg
          then (ag\<lparr>waiting := (waiting ag)(cid \<mapsto> AwaitResync msg)\<rparr>,
                [GetTransactionCount cid])
          else if \<not> testIgnoreCase ''nonce'' msg \<and> \<not> testIgnoreCase ''already in mempool'' msg
          then finish cid (Threw msg) (ag\<lparr>nextNonce := Some nonce\<rparr>)
          else finish cid (Threw msg) ag)"

fun agent_step :: "(string \<Rightarrow> string) \<Rightarrow> Agent \<Rightarrow> agent_event \<Rightarrow> Agent \<times> effect list" where
  "agent_step keccak256 ag (Call cid to) =
     (case nextNonce ag of
        None \<Rightarrow>
          (ag\<lparr>waiting := (waiting ag)(cid \<mapsto> AwaitCount to)\<rparr>, [GetTransactionCount cid])
      | Some counter \<Rightarrow> buildAndClaim cid to counter ag)"
| "agent_step keccak256 ag (CountSettled cid res) =
     (case waiting ag cid of
        Some (AwaitCount to) \<Rightarrow>
          (case res of
             Fulfilled count \<Rightarrow> buildAndClaim cid to count (ag\<lparr>nextNonce := Some count\<rparr>)
           | Rejected msg \<Rightarrow> finish cid (Threw msg) ag)
      | Some (AwaitResync err) \<Rightarrow>
          (case res of
             Fulfilled count \<Rightarrow> finish cid (Threw err) (ag\<lparr>nextNonce := Some count\<rparr>)
           | Rejected msg \<Rightarrow> finish cid (Threw msg) ag)
      | _ \<Rightarrow> (ag, []))"
| "agent_step keccak256 ag (SendSettled cid res) =
     (case waiting ag cid of
        Some (AwaitSend nonce) \<Rightarrow>
          (case res of
             Fulfilled hash \<Rightarrow>
               (ag\<lparr>waiting := (waiting ag)(cid \<mapsto> AwaitReceipt hash)\<rparr>, [WaitForReceipt cid hash])
           | Rejected msg \<Rightarrow> sendRejected keccak256 cid nonce msg ag)
      | _ \<Rightarrow> (ag, []))"
| "agent_step keccak256 ag (ReceiptSettled cid res) =
     (case waiting ag cid of
        Some (AwaitReceipt hash) \<Rightarrow>
          (case res of
             Fulfilled u \<Rightarrow> finish cid (Returned hash) ag
           | Rejected msg \<Rightarrow> finish cid (Threw msg) ag)
      | _ \<Rightarrow> (ag, []))"

fun agent_run :: "(string \<Rightarrow> string) \<Rightarrow> Agent \<Rightarrow> agent_event list \<Rightarrow> Agent \<times> effect list" where
  "agent_run keccak256 ag [] = (ag, [])"
| "agent_run keccak256 ag (e # es) =
     (let (ag', out) = agent_step keccak256 ag e;
          (ag'', outs) = agent_run keccak256 ag' es
      in (ag'', out @ outs))"

text \<open>The nonces handed to \<open>sendTransaction\<close>, in the order in which they were claimed.\<close>

fun claimedNonces :: "effect list \<Rightarrow> nat list" where
  "claimedNonces [] = []"
| "claimedNonces (SendTransaction cid nonce # effs) = nonce # claimedNonces effs"
| "claimedNonces (eff # effs) = claimedNonces effs"

text \<open>
  Events that call \<open>submitPayment\<close> with an address that \<open>addressToAccountId\<close>
  accepts, events that reject a \<open>sendTransaction\<close>, and waiting places that will write
  the counter from the ledger's count.
\<close>

fun is_call :: "agent_event \<Rightarrow> bool" where
  "is_call (Call cid to) = (addressToAccountId to \<noteq> None)"
| "is_call e = False"

fun send_rejected :: "agent_event \<Rightarrow> bool" where
  "send_rejected (SendSettled cid (Rejected msg)) = True"
| "send_rejected e = False"

fun counter_pending :: "suspended option \<Rightarrow> bool" where
  "counter_pending (Some (AwaitCount to)) = True"
| "counter_pending (Some (AwaitResync err)) = True"
| "counter_pending w = False"

section \<open>Properties of the EventEmitter\<close>

lemma js_slice_from_last: "0 < n \<Longrightarrow> js_slice_from (- int n) xs = drop (length xs - n) xs"
proof -
  assume "0 < n"
  moreover have "nat (int (length xs) - int n) = length xs - n"
    by arith
  ultimately show ?thesis
    by (simp add: js_slice_from_def)
qed

lemma eventLog_addConnection: "eventLog (fst (addConnection w em)) = eventLog em"
  by (simp add: addConnection_def Let_def)

lemma eventLog_removeConnection: "eventLog (removeConnection w em) = eventLog em"
  by (simp add: removeConnection_def)

lemma eventLog_emit:
  "eventLog (fst (emit sendThrows event em)) =
     (if length (eventLog em) < 1000 then eventLog em @ [event]
      else drop (length (eventLog em) - 499) (eventLog em @ [event]))"
proof -
  have "- maxLogSize div 2 = - 500"
    by (simp add: maxLogSize_def)
  then show ?thesis
    by (auto simp add: emit_def Let_def js_slice_from_def maxLogSize_def nat_diff_distrib)
qed

lemma emitter_step_bounded:
  "length (eventLog em) \<le> 1000 \<Longrightarrow> length (eventLog (emitter_step em c)) \<le> 1000"
  by (cases c) (auto simp add: eventLog_addConnection eventLog_removeConnection eventLog_emit)

lemma foldl_emitter_step_bounded:
  "length (eventLog em) \<le> 1000 \<Longrightarrow> length (eventLog (foldl emitter_step em calls)) \<le> 1000"
  by (induction calls arbitrary: em) (simp_all add: emitter_step_bounded)

lemma emitter_run_bounded: "length (eventLog (emitter_run calls)) \<le> 1000"
  unfolding emitter_run_def
  by (rule foldl_emitter_step_bounded) (simp add: newEventEmitter_def)

text \<open>
  Claim C7. The event log is bounded: after any sequence of calls on a fresh emitter the
  log holds at most 1000 entries. An \<open>emit\<close> on a log of fewer than 1000 entries only
  appends; an \<open>emit\<close> on a log of exactly 1000 entries (the append makes it 1001) leaves
  the newest 500 entries, the last 499 of the old log followed by the new event, in
  their original order.
\<close>

theorem emit_log_bounded_batch_trim:
  "length (eventLog (emitter_run (calls :: 'e emitter_call list))) \<le> 1000 \<and>
   (length (eventLog (em :: 'e EventEmitter)) < 1000 \<longrightarrow>
      eventLog (fst (emit sendThrows event em)) = eventLog em @ [event]) \<and>
   (length (eventLog em) = 1000 \<longrightarrow>
      eventLog (fst (emit sendThrows event em)) = drop 501 (eventLog em) @ [event] \<and>
      length (eventLog (fst (emit sendThrows event em))) = 500)"
  by (simp add: emitter_run_bounded eventLog_emit)

theorem emit_log_bounded_batch_trim_witness:
  "length (eventLog \<lparr>connections = [], eventLog = replicate 1000 (0::nat)\<rparr>) = 1000 \<and>
   eventLog (fst (emit (\<lambda>w. False) 1 \<lparr>connections = [], eventLog = replicate 1000 (0::nat)\<rparr>))
     = drop 501 (replicate 1000 0) @ [1] \<and>
   length (eventLog (fst (emit (\<lambda>w. False) 1 \<lparr>connections = [], eventLog = replicate 1000 (0::nat)\<rparr>)))
     = 500 \<and>
   length (eventLog \<lparr>connections = [], eventLog = [5::nat]\<rparr>) < 1000 \<and>
   eventLog (fst (emit (\<lambda>w. False) 1 \<lparr>connections = [], eventLog = [5::nat]\<rparr>)) = [5, 1]"
  using emit_log_bounded_batch_trim
          [of "[]" "\<lparr>connections = [], eventLog = replicate 1000 (0::nat)\<rparr>" "\<lambda>w. False" 1]
        emit_log_bounded_batch_trim
          [of "[]" "\<lparr>connections = [], eventLog = [5::nat]\<rparr>" "\<lambda>w. False" 1]
  by simp

text \<open>
  Claim C9. The history message sent to a new connection carries the last
  \<open>min 100 n\<close> events of a log of \<open>n\<close> entries, in log order, so at most 100 of them;
  nothing is sent when the log is empty.
\<close>

theorem addConnection_history_last_100:
  "(eventLog em = [] \<longrightarrow> snd (addConnection w em) = None) \<and>
   (eventLog em \<noteq> [] \<longrightarrow>
      snd (addConnection w em) =
        Some (History (drop (length (eventLog em) - 100) (eventLog em))) \<and>
      length (drop (length (eventLog em) - 100) (eventLog em)) = min 100 (length (eventLog em)))"
  using js_slice_from_last [of 100 "eventLog em"]
  by (auto simp add: addConnection_def Let_def)

theorem addConnection_history_last_100_witness:
  "eventLog \<lparr>connections = [], eventLog = ([] :: nat list)\<rparr> = [] \<and>
   snd (addConnection 7 \<lparr>connections = [], eventLog = ([] :: nat list)\<rparr>) = None \<and>
   eventLog \<lparr>connections = [], eventLog = replicate 150 (3::nat)\<rparr> \<noteq> [] \<and>
   snd (addConnection 7 \<lparr>connections = [], eventLog = replicate 150 (3::nat)\<rparr>)
     = Some (History (replicate 100 3))"
  using addConnection_history_last_100 [of "\<lparr>connections = [], eventLog = ([] :: nat list)\<rparr>" 7]
        addConnection_history_last_100 [of "\<lparr>connections = [], eventLog = replicate 150 (3::nat)\<rparr>" 7]
  by simp

section \<open>Properties of the MetricsCollector\<close>

lemma Math_round_of_nat_10: "Math_round (of_nat n * 10) / 10 = of_nat n"
proof -
  have "(of_nat n * 10 :: rat) = of_int (int n * 10)" by simp
  then have "round (of_nat n * 10 :: rat) = int n * 10"
    by (metis round_of_int)
  then show ?thesis by (simp add: Math_round_def)
qed

lemma currentTps_getPoolMetrics:
  "currentTps (snd (getPoolMetrics now mc)) =
     of_nat (length (filter (\<lambda>t. now - 1000 < t) (recentRequests mc)))"
  by (simp add: getPoolMetrics_def Let_def TPS_WINDOW_MS_def Math_round_of_nat_10)

lemma recentRequests_getPoolMetrics:
  "recentRequests (fst (getPoolMetrics now mc)) = filter (\<lambda>t. now - 1000 < t) (recentRequests mc)"
  by (simp add: getPoolMetrics_def Let_def TPS_WINDOW_MS_def)

lemma recentRequests_recordRequest:
  "recentRequests (recordRequest result mc) =
     (if map_of (agentMetrics mc) (agentId result) = None then recentRequests mc
      else recentRequests mc @ [timestamp result])"
  by (auto simp add: recordRequest_def Let_def split: option.splits)

lemma recentRequests_registerAgent: "recentRequests (registerAgent aid addr mc) = recentRequests mc"
  by (simp add: registerAgent_def)

lemma recentRequests_updateAgentBalance: "recentRequests (updateAgentBalance aid b mc) = recentRequests mc"
  by (simp add: updateAgentBalance_def split: option.splits)

lemma window_filter_run:
  "\<forall>t. GetPoolMetrics t \<in> set calls \<longrightarrow> t \<le> now \<Longrightarrow>
   filter (\<lambda>t. now - 1000 < t) (recentRequests (foldl collector_step mc calls)) =
   filter (\<lambda>t. now - 1000 < t) (recentRequests mc) @
   filter (\<lambda>t. now - 1000 < t) (map timestamp (recorded mc calls))"
proof (induction calls arbitrary: mc)
  case Nil
  then show ?case by simp
next
  case (Cons c calls)
  then have later: "\<forall>t. GetPoolMetrics t \<in> set calls \<longrightarrow> t \<le> now"
    by simp
  show ?case
  proof (cases c)
    case (RegisterAgent aid addr)
    then show ?thesis
      using Cons.IH [OF later, of "registerAgent aid addr mc"]
      by (simp add: recentRequests_registerAgent)
  next
    case (RecordRequest result)
    then show ?thesis
      using Cons.IH [OF later, of "recordRequest result mc"]
      by (simp add: recentRequests_recordRequest)
  next
    case (UpdateAgentBalance aid b)
    then show ?thesis
      using Cons.IH [OF later, of "updateAgentBalance aid b mc"]
      by (simp add: recentRequests_updateAgentBalance)
  next
    case (GetPoolMetrics t)
    with Cons.prems have "t \<le> now" by simp
    then have "filter (\<lambda>x. now - 1000 < x) (filter (\<lambda>x. t - 1000 < x) (recentRequests mc))
               = filter (\<lambda>x. now - 1000 < x) (recentRequests mc)"
      by (auto intro: filter_cong)
    then show ?thesis
      using GetPoolMetrics Cons.IH [OF later, of "fst (getPoolMetrics t mc)"]
      by (simp add: recentRequests_getPoolMetrics)
  qed
qed

text \<open>
  Claim C4, as the code has it. After \<open>start\<close>, and with every earlier
  \<open>getPoolMetrics\<close> made at a clock reading not later than \<open>now\<close>, \<open>currentTps\<close>
  is the number of requests recorded for registered agents, successful or failed, whose
  timestamp is later than \<open>now - 1000\<close>.
\<close>

theorem currentTps_counts_recorded_requests:
  assumes "recentRequests mc = []"
    and "\<forall>t. GetPoolMetrics t \<in> set calls \<longrightarrow> t \<le> now"
  shows "currentTps (snd (getPoolMetrics now (foldl collector_step mc calls))) =
           of_nat (length (filter (\<lambda>r. now - 1000 < timestamp r) (recorded mc calls)))"
proof -
  have "length (filter (\<lambda>t. now - 1000 < t) (map timestamp (recorded mc calls))) =
        length (filter (\<lambda>r. now - 1000 < timestamp r) (recorded mc calls))"
    by (simp add: filter_map comp_def)
  then show ?thesis
    using window_filter_run [OF assms(2), of mc] assms(1)
    by (simp add: currentTps_getPoolMetrics)
qed

theorem currentTps_counts_recorded_requests_witness:
  "recentRequests (registerAgent ''agent-0'' ''0x01'' newMetricsCollector) = [] \<and>
   currentTps (snd (getPoolMetrics 1000
     (foldl collector_step (registerAgent ''agent-0'' ''0x01'' newMetricsCollector)
        [RecordRequest failed500, GetPoolMetrics 900,
         RecordRequest (failed500\<lparr>success := True, timestamp := 950\<rparr>)]))) = 2"
proof -
  have a: "recentRequests (registerAgent ''agent-0'' ''0x01'' newMetricsCollector) = []"
    by (simp add: registerAgent_def newMetricsCollector_def)
  have b: "\<forall>t. GetPoolMetrics t \<in> set [RecordRequest failed500, GetPoolMetrics 900,
                                   RecordRequest (failed500\<lparr>success := True, timestamp := 950\<rparr>)]
        \<longrightarrow> t \<le> 1000"
    by simp
  have r: "recorded (registerAgent ''agent-0'' ''0x01'' newMetricsCollector)
             [RecordRequest failed500, GetPoolMetrics 900,
              RecordRequest (failed500\<lparr>success := True, timestamp := 950\<rparr>)]
           = [failed500, failed500\<lparr>success := True, timestamp := 950\<rparr>]"
    by (simp add: registerAgent_def newMetricsCollector_def failed500_def recordRequest_def
        getPoolMetrics_def Let_def)
  have "currentTps (snd (getPoolMetrics 1000
     (foldl collector_step (registerAgent ''agent-0'' ''0x01'' newMetricsCollector)
        [RecordRequest failed500, GetPoolMetrics 900,
         RecordRequest (failed500\<lparr>success := True, timestamp := 950\<rparr>)]))) = 2"
    unfolding currentTps_counts_recorded_requests [OF a b] r
    by (simp add: failed500_def)
  then show ?thesis
    using a by blast
qed

text \<open>
  Claim C4 as stated fails: a single failed request of a registered agent, stamped 500
  and looked at when the clock reads 1000, gives \<open>currentTps = 1\<close>, although no
  successful request lies in the window.
\<close>

theorem currentTps_counts_failed_request:
  "currentTps (snd (getPoolMetrics 1000
      (recordRequest failed500 (registerAgent ''agent-0'' ''0x01'' newMetricsCollector)))) = 1 \<and>
   \<not> success failed500 \<and>
   successfulInWindow 1000 [failed500] = 0"
  by (simp add: currentTps_getPoolMetrics recentRequests_recordRequest registerAgent_def
      newMetricsCollector_def failed500_def successfulInWindow_def)

lemma roundHalfEven_ge: "of_int a \<le> y \<Longrightarrow> a \<le> roundHalfEven y"
proof -
  assume "of_int a \<le> y"
  then have "a \<le> \<lfloor>y\<rfloor>"
    by (simp add: le_floor_iff)
  then show ?thesis
    by (simp add: roundHalfEven_def Let_def)
qed

lemma roundHalfEven_le: "y \<le> of_int b \<Longrightarrow> roundHalfEven y \<le> b"
proof (cases "y = of_int b")
  case True
  then show ?thesis
    by (simp add: roundHalfEven_def Let_def)
next
  case False
  assume "y \<le> of_int b"
  with False have "y < of_int b"
    by simp
  then have "\<lfloor>y\<rfloor> < b"
    by (simp add: floor_less_iff)
  then show ?thesis
    by (simp add: roundHalfEven_def Let_def)
qed

lemma ilog2_le:
  assumes "0 < m" and "m < 2 ^ 46"
  shows "ilog2 m \<le> 45"
proof (cases "1 \<le> m")
  case True
  have "\<lfloor>m\<rfloor> < 2 ^ 46"
    using assms(2) by (simp add: floor_less_iff)
  then have "bitlen \<lfloor>m\<rfloor> \<le> 46"
    by (simp add: bitlen_le_iff_power)
  with True show ?thesis
    by (simp add: ilog2_def)
next
  case False
  have "0 \<le> bitlen (\<lceil>1 / m\<rceil> - 1)"
    by (rule bitlen_nonneg)
  with False show ?thesis
    by (simp add: ilog2_def)
qed

lemma ceiling_toDouble:
  assumes pos: "0 < x" and small: "x < 2 ^ 46"
    and lo: "of_int k - 1 + 1 / 128 \<le> x" and hi: "x \<le> of_int k"
  shows "\<lceil>toDouble x\<rceil> = k"
proof -
  define j where "j = nat (52 - ilog2 x)"
  have e: "ilog2 x - 52 = - int j" and j7: "7 \<le> j"
    using ilog2_le [OF pos small] by (simp_all add: j_def)
  have p2: "pow2 (ilog2 x - 52) = 1 / 2 ^ j"
    using j7 by (simp add: e pow2_def)
  define q where "q = roundHalfEven (x * 2 ^ j)"
  have td: "toDouble x = of_int q / 2 ^ j"
    using pos by (simp add: toDouble_def Let_def p2 q_def)
  have "j = 7 + (j - 7)"
    using j7 by simp
  then have "(2::rat) ^ j = 2 ^ 7 * 2 ^ (j - 7)"
    by (metis power_add)
  then have split: "(2::rat) ^ j = 128 * 2 ^ (j - 7)"
    by simp
  define c :: rat where "c = of_int k - 1 + 1 / 128"
  have "c \<le> x"
    using lo by (simp add: c_def)
  then have a: "c * 2 ^ j \<le> x * 2 ^ j"
    by (simp add: mult_right_mono)
  have b: "c * 2 ^ j = of_int ((k - 1) * 2 ^ j + 2 ^ (j - 7))"
    by (simp add: c_def split algebra_simps)
  from a have "of_int ((k - 1) * 2 ^ j + 2 ^ (j - 7)) \<le> x * 2 ^ j"
    unfolding b .
  then have qlo: "(k - 1) * 2 ^ j + 2 ^ (j - 7) \<le> q"
    unfolding q_def by (rule roundHalfEven_ge)
  have "x * 2 ^ j \<le> of_int k * 2 ^ j"
    using hi by (simp add: mult_right_mono)
  then have "x * 2 ^ j \<le> of_int (k * 2 ^ j)"
    by simp
  then have qhi: "q \<le> k * 2 ^ j"
    unfolding q_def by (rule roundHalfEven_le)
  have "0 < (2::int) ^ (j - 7)"
    by simp
  with qlo have "(k - 1) * 2 ^ j < q"
    by linarith
  then have "of_int ((k - 1) * 2 ^ j) < (of_int q :: rat)"
    by (simp only: of_int_less_iff)
  then have "(of_int k - 1) * 2 ^ j < (of_int q :: rat)"
    by simp
  then have lower: "of_int k - 1 < toDouble x"
    by (simp add: td pos_less_divide_eq)
  have "(of_int q :: rat) \<le> of_int (k * 2 ^ j)"
    using qhi by (simp only: of_int_le_iff)
  then have "(of_int q :: rat) \<le> of_int k * 2 ^ j"
    by simp
  then have upper: "toDouble x \<le> of_int k"
    by (simp add: td pos_divide_le_eq)
  show ?thesis
    using lower upper by (rule ceiling_unique)
qed


lemma ceiling_product_toDouble:
  fixes p n :: nat and d :: rat
  assumes d_pos: "0 < d" and d_le: "d \<le> of_nat p / 100"
    and d_near: "of_nat p / 100 - d \<le> 1 / 2 ^ 54"
    and n_pos: "0 < n" and n_small: "n < 2 ^ 32" and p_le: "p \<le> 100"
  shows "\<lceil>toDouble (d * of_nat n)\<rceil> = \<lceil>of_nat p / 100 * of_nat n :: rat\<rceil>"
proof -
  define z :: rat where "z = of_nat p / 100 * of_nat n"
  define k where "k = \<lceil>z\<rceil>"
  define x where "x = d * of_nat n"
  have n_rat: "(of_nat n :: rat) < 2 ^ 32"
    using n_small by (metis of_nat_less_iff of_nat_numeral of_nat_power)
  have pos: "0 < x"
    using d_pos n_pos by (simp add: x_def)
  have x_le_z: "x \<le> z"
    unfolding x_def z_def using d_le by (intro mult_right_mono) simp_all
  have "of_nat p / 100 \<le> (1::rat)"
    using p_le by simp
  then have "z \<le> 1 * of_nat n"
    unfolding z_def by (intro mult_right_mono) simp_all
  then have z_le_n: "z \<le> of_nat n"
    by simp
  have small: "x < 2 ^ 46"
  proof -
    have "x < (2::rat) ^ 32"
      using x_le_z z_le_n n_rat by linarith
    also have "(2::rat) ^ 32 < 2 ^ 46"
      by simp
    finally show ?thesis .
  qed
  have hi: "x \<le> of_int k"
    using x_le_z by (simp add: k_def le_of_int_ceiling order_trans [of x z])
  have z_int: "z = of_int (int (p * n)) / 100"
    by (simp add: z_def)
  have "of_int k - 1 < z"
    unfolding k_def by linarith
  then have "of_int (100 * (k - 1)) < (of_int (int (p * n)) :: rat)"
    unfolding z_int by simp
  then have "100 * (k - 1) < int (p * n)"
    by (simp only: of_int_less_iff)
  then have "100 * (k - 1) + 1 \<le> int (p * n)"
    by simp
  then have "(of_int (100 * (k - 1) + 1) :: rat) \<le> of_int (int (p * n))"
    by (simp only: of_int_le_iff)
  then have z_lo: "of_int k - 1 + 1 / 100 \<le> z"
    unfolding z_int by simp
  have "(of_nat p / 100 - d) * of_nat n \<le> (1 / 2 ^ 54) * 2 ^ 32"
    using d_near n_rat d_le by (intro mult_mono) simp_all
  then have "z - x \<le> 1 / 2 ^ 22"
    by (simp add: z_def x_def algebra_simps)
  with z_lo have lo: "of_int k - 1 + 1 / 128 \<le> x"
    by simp
  show ?thesis
    using ceiling_toDouble [OF pos small lo hi] by (simp add: x_def k_def z_def)
qed

lemma toDouble_percent_50:
  "0 < toDouble (of_nat 50 / 100)"
  "toDouble (of_nat 50 / 100) \<le> of_nat 50 / 100"
  "of_nat 50 / 100 - toDouble (of_nat 50 / 100) \<le> 1 / 2 ^ 54"
  by code_simp+

lemma toDouble_percent_95:
  "0 < toDouble (of_nat 95 / 100)"
  "toDouble (of_nat 95 / 100) \<le> of_nat 95 / 100"
  "of_nat 95 / 100 - toDouble (of_nat 95 / 100) \<le> 1 / 2 ^ 54"
  by code_simp+

lemma toDouble_percent_99:
  "0 < toDouble (of_nat 99 / 100)"
  "toDouble (of_nat 99 / 100) \<le> of_nat 99 / 100"
  "of_nat 99 / 100 - toDouble (of_nat 99 / 100) \<le> 1 / 2 ^ 54"
  by code_simp+

lemma ceiling_percentile_product:
  fixes n :: nat
  assumes "p \<in> {50, 95, 99 :: nat}" and "0 < n" and "n < 2 ^ 32"
  shows "\<lceil>toDouble (toDouble (of_nat p / 100) * of_nat n)\<rceil> = \<lceil>of_nat p / 100 * of_nat n :: rat\<rceil>"
proof -
  from assms(1) consider "p = 50" | "p = 95" | "p = 99"
    by auto
  then show ?thesis
  proof cases
    case 1
    have "(50::nat) \<le> 100" by simp
    from ceiling_product_toDouble [OF toDouble_percent_50 assms(2,3) this]
    show ?thesis unfolding 1 .
  next
    case 2
    have "(95::nat) \<le> 100" by simp
    from ceiling_product_toDouble [OF toDouble_percent_95 assms(2,3) this]
    show ?thesis unfolding 2 .
  next
    case 3
    have "(99::nat) \<le> 100" by simp
    from ceiling_product_toDouble [OF toDouble_percent_99 assms(2,3) this]
    show ?thesis unfolding 3 .
  qed
qed

text \<open>
  Claim C5, as the code has it. For a non-empty sample list (a JavaScript array has
  fewer than \<open>2 ^ 32\<close> elements) and each percentile the code asks for, \<open>p = 50\<close>, 95
  and 99, \<open>percentile\<close> returns the sample at index \<open>\<lceil>p / 100 * n\<rceil> - 1\<close>, the ceiling
  taken of the exact product, clamped to \<open>[0, n - 1]\<close>. On the seven samples
  10, 20, 30, 40, 50, 100, 200 the index for \<open>p = 50\<close> is 3, so p50 is the fourth value,
  40, and p95 is the seventh, 200.
\<close>

theorem percentile_nearest_rank:
  assumes "samples \<noteq> []" and "length samples < 2 ^ 32" and "p \<in> {50, 95, 99}"
  shows "percentile samples p =
           Some (samples ! nat (max 0 (min (int (length samples) - 1)
                                         (\<lceil>(p / 100) * of_nat (length samples)\<rceil> - 1)))) \<and>
         percentile [10, 20, 30, 40, 50, 100, 200] 50 = Some 40 \<and>
         percentile [10, 20, 30, 40, 50, 100, 200] 95 = Some 200"
proof -
  define n where "n = length samples"
  define c where "c = \<lceil>(p / 100) * of_nat n\<rceil>"
  have n_pos: "0 < n"
    using assms(1) by (simp add: n_def)
  have n_small: "n < 2 ^ 32"
    using assms(2) by (simp add: n_def)
  from assms(3) obtain q :: nat where q: "q \<in> {50, 95, 99}" and pq: "p = of_nat q"
    by auto
  have code_idx: "\<lceil>toDouble (toDouble (p / 100) * of_nat n)\<rceil> = c"
    unfolding c_def pq by (rule ceiling_percentile_product [OF q n_pos n_small])
  have "p \<le> 100"
    using assms(3) by auto
  then have "p * of_nat n \<le> 100 * of_nat n"
    by (intro mult_right_mono) simp_all
  then have "(p / 100) * of_nat n \<le> of_nat n"
    by simp
  then have c_le: "c \<le> int n"
    by (simp add: c_def ceiling_le_iff)
  have clamp: "max 0 (min (int n - 1) (c - 1)) = max 0 (c - 1)"
    using c_le by simp
  have "0 \<le> max 0 (c - 1) \<and> max 0 (c - 1) < int n"
    using c_le n_pos by simp
  then have "js_index samples (max 0 (c - 1)) = Some (samples ! nat (max 0 (c - 1)))"
    by (simp add: js_index_def n_def)
  then have general: "percentile samples p =
           Some (samples ! nat (max 0 (min (int (length samples) - 1)
                                         (\<lceil>(p / 100) * of_nat (length samples)\<rceil> - 1))))"
    using n_pos clamp code_idx by (simp add: percentile_def Let_def c_def n_def)
  have p50: "percentile [10, 20, 30, 40, 50, 100, 200] 50 = Some 40"
    by code_simp
  have p95: "percentile [10, 20, 30, 40, 50, 100, 200] 95 = Some 200"
    by code_simp
  show ?thesis
    using general p50 p95 by simp
qed

theorem percentile_nearest_rank_witness:
  "[3, 5, 8, 13] \<noteq> ([] :: int list) \<and> length [3, 5, 8, 13 :: int] < 2 ^ 32 \<and>
   percentile [3, 5, 8, 13] 95 = Some 13"
proof -
  have a: "[3, 5, 8, 13] \<noteq> ([] :: int list)" by simp
  have b: "length [3, 5, 8, 13 :: int] < 2 ^ 32" by simp
  have c: "(95 :: rat) \<in> {50, 95, 99}" by simp
  have "\<lceil>(95 / 100) * of_nat (length [3, 5, 8, 13 :: int]) :: rat\<rceil> = 4"
    by (simp add: ceiling_unique)
  then show ?thesis
    using percentile_nearest_rank [OF a b c] by simp
qed

text \<open>
  Claim C5 as stated fails in its example: the median of the seven samples is not 30.
\<close>

theorem percentile_p50_not_30:
  "percentile [10, 20, 30, 40, 50, 100, 200] 50 \<noteq> Some 30"
  by code_simp

text \<open>
  Outside the three percentiles the rounding of \<open>p / 100\<close> can lift the product above
  an integer: for \<open>p = 28\<close> and 25 samples the exact product is 7, the computed one is
  the next binary64 value above 7, and the index is 7 instead of 6.
\<close>

lemma percentile_28_of_25_samples:
  "percentile [1, 2, 3, 4, 5, 6, 7, 8, 9, 10, 11, 12, 13, 14, 15, 16, 17, 18, 19, 20,
               21, 22, 23, 24, 25] 28 = Some 8 \<and>
   \<lceil>(28 / 100) * of_nat 25 :: rat\<rceil> - 1 = 6"
  by code_simp

text \<open>
  Claim C10. A result whose agent id is not registered leaves the collector as it was,
  so every figure computed from it is the same as before.
\<close>

theorem recordRequest_unknown_agent:
  "map_of (agentMetrics mc) (agentId result) = None \<Longrightarrow>
     recordRequest result mc = mc \<and>
     getPoolMetrics now (recordRequest result mc) = getPoolMetrics now mc"
  by (simp add: recordRequest_def)

theorem recordRequest_unknown_agent_witness:
  "map_of (agentMetrics (registerAgent ''agent-1'' ''0x02'' newMetricsCollector))
     (agentId failed500) = None \<and>
   recordRequest failed500 (registerAgent ''agent-1'' ''0x02'' newMetricsCollector)
     = registerAgent ''agent-1'' ''0x02'' newMetricsCollector"
proof -
  have a: "map_of (agentMetrics (registerAgent ''agent-1'' ''0x02'' newMetricsCollector))
     (agentId failed500) = None"
    by (simp add: registerAgent_def newMetricsCollector_def failed500_def)
  show ?thesis
    using a recordRequest_unknown_agent [OF a] by simp
qed

section \<open>Properties of the facilitator\<close>

lemma fst_verify: "fst (verify client now pp pr fc) = evictStale now fc"
  by (simp add: verify_def Let_def)

lemma snd_verify:
  "snd (verify client now pp pr fc) =
     (if payload_txHash pp = [] then invalid ''Missing transaction hash''
      else if usedTxHashes (evictStale now fc) (payload_txHash pp) \<noteq> None
           then invalid ''Transaction already used''
      else verifyOnLedger client (payload_txHash pp) pr)"
  by (simp add: verify_def Let_def)

lemma usedTxHashes_evictStale:
  "usedTxHashes (evictStale now fc) h =
     (case usedTxHashes fc h of
        None \<Rightarrow> None
      | Some ts \<Rightarrow> if now - ts > TX_HASH_TTL_MS then None else Some ts)"
  by (simp add: evictStale_def)

lemma usedTxHashes_settle:
  "usedTxHashes (fst (settle client now pp pr fc)) = (usedTxHashes fc)(payload_txHash pp \<mapsto> now)"
  by (simp add: settle_def Let_def)

lemma settle_success_always: "settle_success (snd (settle client now pp pr fc))"
  by (simp add: settle_def Let_def)

lemma fst_facilitator_step:
  "fst (facilitator_step fc c) =
     (case c of Verify client now pp pr \<Rightarrow> evictStale now fc
              | Settle client now pp pr \<Rightarrow> fst (settle client now pp pr fc))"
  by (cases c) (simp_all add: split_beta fst_verify)

lemma isValid_invalid: "\<not> isValid (invalid reason)"
  by (simp add: invalid_def)

lemma step_keeps_entry:
  assumes "usedTxHashes fc h = Some ts" and "call_time c - ts \<le> TX_HASH_TTL_MS"
  shows "\<exists>ts'. usedTxHashes (fst (facilitator_step fc c)) h = Some ts' \<and>
               (ts' = ts \<or> (is_settle c \<and> call_txHash c = h \<and> ts' = call_time c))"
  using assms
  by (cases c) (auto simp add: split_beta fst_verify usedTxHashes_evictStale usedTxHashes_settle)

lemma verify_used_invalid:
  assumes "usedTxHashes fc h = Some ts" and "now - ts \<le> TX_HASH_TTL_MS" and "payload_txHash pp = h"
  shows "\<not> isValid (snd (verify client now pp pr fc))"
  using assms by (simp add: snd_verify usedTxHashes_evictStale isValid_invalid)

lemma no_second_settle:
  assumes "\<forall>t\<in>Ts. \<forall>t'\<in>Ts. t - t' \<le> TX_HASH_TTL_MS"
    and "call_time ` set cs \<subseteq> Ts"
    and "usedTxHashes fc h = Some ts" and "ts \<in> Ts"
    and "gated_from armed fc cs"
    and "h \<notin> set armed"
  shows "filter (\<lambda>c. is_settle c \<and> call_txHash c = h) cs = []"
  using assms(2-)
proof (induction cs arbitrary: fc armed ts)
  case Nil
  then show ?case by simp
next
  case (Cons c cs)
  have tc: "call_time c \<in> Ts" using Cons.prems(1) by simp
  have rest: "call_time ` set cs \<subseteq> Ts" using Cons.prems(1) by auto
  have near: "call_time c - ts \<le> TX_HASH_TTL_MS"
    using assms(1) tc Cons.prems(3) by blast
  have not_h: "\<not> (is_settle c \<and> call_txHash c = h)"
    using Cons.prems(4,5) by auto
  from step_keeps_entry [OF Cons.prems(2) near] not_h
  have kept: "usedTxHashes (fst (facilitator_step fc c)) h = Some ts"
    by auto
  let ?armed' = "case snd (facilitator_step fc c) of
           Verified r \<Rightarrow> if isValid r then call_txHash c # armed else armed
         | Settled r \<Rightarrow> removeAll (call_txHash c) armed"
  have g': "gated_from ?armed' (fst (facilitator_step fc c)) cs"
    using Cons.prems(4) by simp
  have a': "h \<notin> set ?armed'"
  proof (cases c)
    case (Verify client now pp pr)
    show ?thesis
    proof (cases "payload_txHash pp = h")
      case True
      with verify_used_invalid [OF Cons.prems(2) _ True, of now client pr] near Verify
        Cons.prems(5)
      show ?thesis by (simp add: split_beta)
    next
      case False
      with Verify Cons.prems(5) show ?thesis by (simp add: split_beta)
    qed
  next
    case (Settle client now pp pr)
    with Cons.prems(5) show ?thesis by (simp add: split_beta)
  qed
  from Cons.IH [OF rest kept Cons.prems(3) g' a'] not_h
  show ?case by simp
qed

lemma at_most_one_settle:
  assumes "\<forall>t\<in>Ts. \<forall>t'\<in>Ts. t - t' \<le> TX_HASH_TTL_MS"
    and "call_time ` set cs \<subseteq> Ts"
    and "gated_from armed fc cs"
  shows "length (filter (\<lambda>c. is_settle c \<and> call_txHash c = h) cs) \<le> 1"
  using assms(2-)
proof (induction cs arbitrary: fc armed)
  case Nil
  then show ?case by simp
next
  case (Cons c cs)
  have tc: "call_time c \<in> Ts" using Cons.prems(1) by simp
  have rest: "call_time ` set cs \<subseteq> Ts" using Cons.prems(1) by auto
  let ?armed' = "case snd (facilitator_step fc c) of
           Verified r \<Rightarrow> if isValid r then call_txHash c # armed else armed
         | Settled r \<Rightarrow> removeAll (call_txHash c) armed"
  have g': "gated_from ?armed' (fst (facilitator_step fc c)) cs"
    using Cons.prems(2) by simp
  show ?case
  proof (cases "is_settle c \<and> call_txHash c = h")
    case True
    then obtain client now pp pr where c: "c = Settle client now pp pr"
      by (cases c) auto
    have used: "usedTxHashes (fst (facilitator_step fc c)) h = Some (call_time c)"
      using True c by (simp add: split_beta usedTxHashes_settle)
    have "h \<notin> set ?armed'"
      using True c by (simp add: split_beta)
    from no_second_settle [OF assms(1) rest used tc g' this] True
    show ?thesis by simp
  next
    case False
    with Cons.IH [OF rest g'] show ?thesis by auto
  qed
qed

lemma fst_facilitator_run_Cons:
  "fst (facilitator_run fc (c # cs)) = fst (facilitator_run (fst (facilitator_step fc c)) cs)"
  by (simp add: split_beta)

lemma snd_facilitator_run_Cons:
  "snd (facilitator_run fc (c # cs)) =
     snd (facilitator_step fc c) # snd (facilitator_run (fst (facilitator_step fc c)) cs)"
  by (simp add: split_beta)

lemma run_settles_succeed:
  "\<forall>r\<in>set (snd (facilitator_run fc cs)).
      case r of Settled sr \<Rightarrow> settle_success sr | Verified vr \<Rightarrow> True"
proof (induction cs arbitrary: fc)
  case Nil
  then show ?case by simp
next
  case (Cons c cs)
  have "case snd (facilitator_step fc c) of Settled sr \<Rightarrow> settle_success sr | Verified vr \<Rightarrow> True"
    by (cases c) (simp_all add: split_beta settle_success_always)
  with Cons.IH [of "fst (facilitator_step fc c)"] show ?case
    by (simp add: snd_facilitator_run_Cons del: facilitator_run.simps)
qed

lemma run_keeps_settled:
  assumes "usedTxHashes fc h = Some ts" and "T \<le> ts"
    and "\<forall>c\<in>set cs. T \<le> call_time c \<and> call_time c - T \<le> TX_HASH_TTL_MS"
  shows "\<exists>ts'. usedTxHashes (fst (facilitator_run fc cs)) h = Some ts' \<and> T \<le> ts'"
  using assms
proof (induction cs arbitrary: fc ts)
  case Nil
  then show ?case by simp
next
  case (Cons c cs)
  have "call_time c - ts \<le> TX_HASH_TTL_MS"
    using Cons.prems(2,3) by auto
  from step_keeps_entry [OF Cons.prems(1) this]
  obtain ts' where k: "usedTxHashes (fst (facilitator_step fc c)) h = Some ts'"
    and "ts' = ts \<or> ts' = call_time c"
    by auto
  then have "T \<le> ts'"
    using Cons.prems(2,3) by auto
  from Cons.IH [OF k this] Cons.prems(3) show ?case
    by (simp add: fst_facilitator_run_Cons del: facilitator_run.simps)
qed

lemma verifyOnLedger_reason:
  "invalidReason (verifyOnLedger client h pr) \<noteq> Some ''Transaction already used''"
  by (simp add: verifyOnLedger_def invalid_def valid_def Let_def split: sum.splits option.splits)

lemma step_keeps_unused:
  assumes "usedTxHashes fc h = None" and "\<not> (is_settle c \<and> call_txHash c = h)"
  shows "usedTxHashes (fst (facilitator_step fc c)) h = None"
  using assms
  by (cases c) (auto simp add: split_beta fst_verify usedTxHashes_evictStale usedTxHashes_settle)

lemma run_keeps_unused:
  assumes "usedTxHashes fc h = None"
    and "\<forall>c\<in>set cs. \<not> (is_settle c \<and> call_txHash c = h)"
  shows "usedTxHashes (fst (facilitator_run fc cs)) h = None"
  using assms
proof (induction cs arbitrary: fc)
  case Nil
  then show ?case by simp
next
  case (Cons c cs)
  from Cons.prems have "usedTxHashes (fst (facilitator_step fc c)) h = None"
    by (simp add: step_keeps_unused)
  from Cons.IH [OF this] Cons.prems(2) show ?case
    by (simp add: fst_facilitator_run_Cons del: facilitator_run.simps)
qed

lemma evictStale_map_le: "usedTxHashes (evictStale now fc) \<subseteq>\<^sub>m usedTxHashes fc"
  by (auto simp add: map_le_def usedTxHashes_evictStale split: option.splits if_splits)

lemma demo_verifyOnLedger: "verifyOnLedger demoClient ''0xaa'' demoRequirements = valid ''0xpayer''"
  by code_simp

lemma demo_verify_valid:
  "snd (verify demoClient now demoPayload demoRequirements demoFacilitator) = valid ''0xpayer''"
  by (simp add: snd_verify demoPayload_def demoFacilitator_def newFacilitator_def
      usedTxHashes_evictStale demo_verifyOnLedger)

text \<open>
  What the replay check does give. In a gated run whose clock readings lie within one
  TTL of each other, at most one \<open>settle\<close> carries a given transaction hash; and every
  \<open>settle\<close>, gated or not, answers \<open>success: true\<close>.
\<close>

lemma gated_settle_at_most_once:
  assumes "\<forall>c\<in>set cs. \<forall>c'\<in>set cs. call_time c - call_time c' \<le> TX_HASH_TTL_MS"
    and "gated fc cs"
  shows "length (filter (\<lambda>c. is_settle c \<and> call_txHash c = h) cs) \<le> 1 \<and>
         (\<forall>r\<in>set (snd (facilitator_run fc cs)).
            case r of Settled sr \<Rightarrow> settle_success sr | Verified vr \<Rightarrow> True)"
proof -
  have w: "\<forall>t\<in>call_time ` set cs. \<forall>t'\<in>call_time ` set cs. t - t' \<le> TX_HASH_TTL_MS"
    using assms(1) by simp
  have "length (filter (\<lambda>c. is_settle c \<and> call_txHash c = h) cs) \<le> 1"
    using at_most_one_settle [OF w subset_refl, of "[]" fc h] assms(2)
    by (simp add: gated_def)
  then show ?thesis
    using run_settles_succeed [of fc cs] by simp
qed

lemma gated_settle_at_most_once_example:
  "gated demoFacilitator
     [Verify demoClient 0 demoPayload demoRequirements,
      Settle demoClient 5 demoPayload demoRequirements,
      Verify demoClient 10 demoPayload demoRequirements] \<and>
   length (filter (\<lambda>c. is_settle c \<and> call_txHash c = ''0xaa'')
     [Verify demoClient 0 demoPayload demoRequirements,
      Settle demoClient 5 demoPayload demoRequirements,
      Verify demoClient 10 demoPayload demoRequirements]) \<le> 1"
proof -
  let ?cs = "[Verify demoClient 0 demoPayload demoRequirements,
              Settle demoClient 5 demoPayload demoRequirements,
              Verify demoClient 10 demoPayload demoRequirements]"
  have a: "\<forall>c\<in>set ?cs. \<forall>c'\<in>set ?cs. call_time c - call_time c' \<le> TX_HASH_TTL_MS"
    by (simp add: TX_HASH_TTL_MS_def)
  have b: "gated demoFacilitator ?cs"
    by code_simp
  show ?thesis
    using b gated_settle_at_most_once [OF a b, of "''0xaa''"] by blast
qed

lemma settle_twice_run_not_gated:
  "\<not> gated demoFacilitator
       [Verify demoClient 1000 demoPayload demoRequirements,
        Verify demoClient 1001 demoPayload demoRequirements,
        Settle demoClient 1002 demoPayload demoRequirements,
        Settle demoClient 1003 demoPayload demoRequirements] \<and>
   gated demoFacilitator
       [Verify demoClient 1000 demoPayload demoRequirements,
        Verify demoClient 1001 otherPayload demoRequirements,
        Settle demoClient 1002 demoPayload demoRequirements]"
  by code_simp

text \<open>
  Claim C1 asks that at most one \<open>settle\<close> reports \<open>success: true\<close> for a transaction
  hash. The code breaks it: \<open>verify\<close> checks \<open>usedTxHashes\<close> and \<open>settle\<close> marks the
  hash later, with no check of its own, so two requests that carry the same paid
  transaction and are both verified before either is settled are both settled with
  \<open>success: true\<close>. The run below is not gated.
\<close>

theorem settle_twice_both_succeed:
  "snd (facilitator_run demoFacilitator
          [Verify demoClient 1000 demoPayload demoRequirements,
           Verify demoClient 1001 demoPayload demoRequirements,
           Settle demoClient 1002 demoPayload demoRequirements,
           Settle demoClient 1003 demoPayload demoRequirements]) =
     [Verified (valid ''0xpayer''),
      Verified (valid ''0xpayer''),
      Settled \<lparr>settle_success = True, settle_transaction = ''0xaa'',
               settle_network = ''evolve:1337'', settle_payer = ''0xpayer''\<rparr>,
      Settled \<lparr>settle_success = True, settle_transaction = ''0xaa'',
               settle_network = ''evolve:1337'', settle_payer = ''0xpayer''\<rparr>]"
proof -
  have v: "\<And>now fc. usedTxHashes fc = Map.empty \<Longrightarrow>
             verify demoClient now demoPayload demoRequirements fc = (fc, valid ''0xpayer'')"
    by (simp add: verify_def Let_def demoPayload_def evictStale_def demo_verifyOnLedger)
  show ?thesis
    using v [of demoFacilitator]
    by (simp add: demoFacilitator_def newFacilitator_def settle_def Let_def demoClient_def)
       (simp add: demoPayload_def)
qed

text \<open>
  Claim C2. After a \<open>settle\<close> of a transaction hash at clock reading \<open>T\<close> (the hash is
  present, that is, not the empty string that \<open>verify\<close> reports as missing), and after
  any further calls made at readings from \<open>T\<close> up to one TTL later, a \<open>verify\<close> that
  carries the same hash no later than \<open>T + TTL\<close> answers invalid with the reason
  ``Transaction already used''.
\<close>

theorem settled_hash_verifies_already_used:
  assumes "payload_txHash pp \<noteq> []"
    and "payload_txHash pp' = payload_txHash pp"
    and "\<forall>c\<in>set cs. T \<le> call_time c \<and> call_time c - T \<le> TX_HASH_TTL_MS"
    and "now - T \<le> TX_HASH_TTL_MS"
  shows "settle_success (snd (settle client T pp pr fc)) \<and>
         snd (verify client' now pp' pr'
                (fst (facilitator_run (fst (settle client T pp pr fc)) cs)))
           = invalid ''Transaction already used''"
proof -
  have "usedTxHashes (fst (settle client T pp pr fc)) (payload_txHash pp) = Some T"
    by (simp add: usedTxHashes_settle)
  from run_keeps_settled [OF this order_refl assms(3)]
  obtain ts where "usedTxHashes (fst (facilitator_run (fst (settle client T pp pr fc)) cs))
                     (payload_txHash pp) = Some ts" and "T \<le> ts"
    by auto
  moreover from this assms(4) have "now - ts \<le> TX_HASH_TTL_MS"
    by simp
  ultimately show ?thesis
    using assms(1,2) by (simp add: snd_verify usedTxHashes_evictStale settle_success_always)
qed

theorem settled_hash_verifies_already_used_witness:
  "payload_txHash demoPayload \<noteq> [] \<and>
   3599999 - 0 \<le> TX_HASH_TTL_MS \<and>
   snd (verify demoClient 3599999 demoPayload demoRequirements
          (fst (facilitator_run
                  (fst (settle demoClient 0 demoPayload demoRequirements demoFacilitator))
                  [Verify demoClient 100 demoPayload demoRequirements,
                   Settle demoClient 200 otherPayload demoRequirements])))
     = invalid ''Transaction already used''"
proof -
  have a: "payload_txHash demoPayload \<noteq> []"
    by (simp add: demoPayload_def)
  have b: "\<forall>c\<in>set [Verify demoClient 100 demoPayload demoRequirements,
              Settle demoClient 200 otherPayload demoRequirements].
      0 \<le> call_time c \<and> call_time c - 0 \<le> TX_HASH_TTL_MS"
    by (simp add: TX_HASH_TTL_MS_def)
  have c: "3599999 - 0 \<le> TX_HASH_TTL_MS"
    by (simp add: TX_HASH_TTL_MS_def)
  show ?thesis
    using a c settled_hash_verifies_already_used [OF a refl b c] by blast
qed

text \<open>
  Claim C3. \<open>verify\<close> leaves the facilitator as \<open>evictStale\<close> alone does, whatever it
  answers, so it adds no entry. If a \<open>verify\<close> answered valid and no \<open>settle\<close> of that
  hash follows, then after any further calls the hash is still unused, a new \<open>verify\<close>
  with the same ledger answers gives the same valid answer, and the \<open>settle\<close> after it
  succeeds and records the hash.
\<close>

theorem verify_never_inserts:
  "fst (verify client now pp pr fc) = evictStale now fc \<and>
   usedTxHashes (fst (verify client now pp pr fc)) \<subseteq>\<^sub>m usedTxHashes fc \<and>
   (isValid (snd (verify client now pp pr fc)) \<and>
    (\<forall>c\<in>set cs. \<not> (is_settle c \<and> call_txHash c = payload_txHash pp)) \<longrightarrow>
      (let fc' = fst (facilitator_run (fst (verify client now pp pr fc)) cs)
       in usedTxHashes fc' (payload_txHash pp) = None \<and>
          snd (verify client now' pp pr fc') = snd (verify client now pp pr fc) \<and>
          settle_success (snd (settle client now'' pp pr (fst (verify client now' pp pr fc')))) \<and>
          usedTxHashes (fst (settle client now'' pp pr (fst (verify client now' pp pr fc'))))
            (payload_txHash pp) = Some now''))"
proof -
  have retry: "usedTxHashes fc' (payload_txHash pp) = None \<and>
          snd (verify client now' pp pr fc') = snd (verify client now pp pr fc)"
    if v: "isValid (snd (verify client now pp pr fc))"
      and ns: "\<forall>c\<in>set cs. \<not> (is_settle c \<and> call_txHash c = payload_txHash pp)"
      and fc': "fc' = fst (facilitator_run (fst (verify client now pp pr fc)) cs)"
    for fc'
  proof -
    from v have ne: "payload_txHash pp \<noteq> []"
      and un: "usedTxHashes (evictStale now fc) (payload_txHash pp) = None"
      by (auto simp add: snd_verify isValid_invalid split: if_splits)
    from run_keeps_unused [OF _ ns, of "evictStale now fc"] un
    have n': "usedTxHashes fc' (payload_txHash pp) = None"
      by (simp add: fc' fst_verify)
    then show ?thesis
      using ne un by (simp add: snd_verify usedTxHashes_evictStale)
  qed
  show ?thesis
    using retry
    by (simp add: fst_verify evictStale_map_le Let_def settle_success_always usedTxHashes_settle)
qed

theorem verify_never_inserts_witness:
  "isValid (snd (verify demoClient 10 demoPayload demoRequirements demoFacilitator)) \<and>
   snd (verify demoClient 40 demoPayload demoRequirements
          (fst (facilitator_run
                  (fst (verify demoClient 10 demoPayload demoRequirements demoFacilitator))
                  [Verify demoClient 20 demoPayload demoRequirements,
                   Settle demoClient 30 otherPayload demoRequirements])))
     = valid ''0xpayer''"
proof -
  have a: "isValid (snd (verify demoClient 10 demoPayload demoRequirements demoFacilitator))"
    by (simp add: demo_verify_valid valid_def)
  have b: "\<forall>c\<in>set [Verify demoClient 20 demoPayload demoRequirements,
              Settle demoClient 30 otherPayload demoRequirements].
      \<not> (is_settle c \<and> call_txHash c = payload_txHash demoPayload)"
    by (simp add: demoPayload_def otherPayload_def)
  from a b
    verify_never_inserts [of demoClient 10 demoPayload demoRequirements demoFacilitator
        "[Verify demoClient 20 demoPayload demoRequirements,
          Settle demoClient 30 otherPayload demoRequirements]" 40 50, unfolded Let_def]
  have "snd (verify demoClient 40 demoPayload demoRequirements
          (fst (facilitator_run
                  (fst (verify demoClient 10 demoPayload demoRequirements demoFacilitator))
                  [Verify demoClient 20 demoPayload demoRequirements,
                   Settle demoClient 30 otherPayload demoRequirements])))
     = snd (verify demoClient 10 demoPayload demoRequirements demoFacilitator)"
    by blast
  then show ?thesis
    using a by (simp only: demo_verify_valid)
qed

text \<open>
  Claim C6. For a hash recorded by \<open>settle\<close> at clock reading \<open>T\<close>: a \<open>verify\<close> at
  \<open>T + TTL + \<epsilon>\<close> evicts the entry and does not answer ``Transaction already used'',
  and a \<open>verify\<close> at \<open>T + TTL - \<epsilon>\<close> that carries the hash (a present, non-empty one)
  answers invalid with that reason, for every \<open>\<epsilon> > 0\<close>.
\<close>

theorem ttl_eviction_boundary:
  assumes "0 < eps"
  shows "invalidReason (snd (verify client (T + TX_HASH_TTL_MS + eps) pp pr
                               (fst (settle client0 T pp pr0 fc))))
           \<noteq> Some ''Transaction already used'' \<and>
         usedTxHashes (fst (verify client (T + TX_HASH_TTL_MS + eps) pp pr
                               (fst (settle client0 T pp pr0 fc)))) (payload_txHash pp) = None \<and>
         (payload_txHash pp \<noteq> [] \<longrightarrow>
            snd (verify client (T + TX_HASH_TTL_MS - eps) pp pr
                   (fst (settle client0 T pp pr0 fc)))
              = invalid ''Transaction already used'')"
  using assms
  by (simp add: snd_verify fst_verify usedTxHashes_evictStale usedTxHashes_settle
      verifyOnLedger_reason invalid_def)

theorem ttl_eviction_boundary_witness:
  "(0 :: int) < 1 \<and>
   payload_txHash demoPayload \<noteq> [] \<and>
   snd (verify demoClient (0 + TX_HASH_TTL_MS + 1) demoPayload demoRequirements
          (fst (settle demoClient 0 demoPayload demoRequirements demoFacilitator)))
     = valid ''0xpayer'' \<and>
   snd (verify demoClient (0 + TX_HASH_TTL_MS - 1) demoPayload demoRequirements
          (fst (settle demoClient 0 demoPayload demoRequirements demoFacilitator)))
     = invalid ''Transaction already used''"
proof -
  have a: "(0 :: int) < 1" by simp
  have b: "payload_txHash demoPayload \<noteq> []"
    by (simp add: demoPayload_def)
  have c: "snd (verify demoClient (0 + TX_HASH_TTL_MS + 1) demoPayload demoRequirements
          (fst (settle demoClient 0 demoPayload demoRequirements demoFacilitator)))
     = valid ''0xpayer''"
    by (simp add: snd_verify usedTxHashes_evictStale usedTxHashes_settle demoPayload_def
        demo_verifyOnLedger)
  show ?thesis
    using a b c
      ttl_eviction_boundary [OF a, of demoClient 0 demoPayload demoRequirements demoClient
        demoRequirements demoFacilitator]
    by blast
qed

section \<open>Properties of the agent's nonce counter\<close>

lemma claimedNonces_append: "claimedNonces (xs @ ys) = claimedNonces xs @ claimedNonces ys"
  by (induction xs rule: claimedNonces.induct) simp_all

lemma snd_agent_run_Cons:
  "snd (agent_run k ag (e # es)) =
     snd (agent_step k ag e) @ snd (agent_run k (fst (agent_step k ag e)) es)"
  by (simp add: split_beta)

lemma agent_step_initialised:
  assumes "nextNonce ag = Some n" and "\<forall>cid. \<not> counter_pending (waiting ag cid)"
    and "\<not> send_rejected e"
  shows "nextNonce (fst (agent_step k ag e)) = Some (if is_call e then n + 1 else n) \<and>
         (\<forall>cid. \<not> counter_pending (waiting (fst (agent_step k ag e)) cid)) \<and>
         claimedNonces (snd (agent_step k ag e)) = (if is_call e then [n] else [])"
proof (cases e)
  case (Call cid to)
  then show ?thesis
    using assms
    by (auto simp add: buildAndClaim_def claimAndSend_def finish_def split: option.splits)
next
  case (CountSettled cid res)
  from assms(2) have "\<not> counter_pending (waiting ag cid)" by simp
  then show ?thesis
    using assms(1,2) CountSettled
    by (cases "waiting ag cid" rule: counter_pending.cases) simp_all
next
  case (SendSettled cid res)
  with assms(3) obtain h where "res = Fulfilled h"
    by (cases res) auto
  then show ?thesis
    using assms SendSettled
    by (auto split: option.splits suspended.splits)
next
  case (ReceiptSettled cid res)
  then show ?thesis
    using assms
    by (auto simp add: finish_def split: option.splits suspended.splits settled.splits)
qed

lemma upt_from_Suc: "[n ..< n + Suc m] = n # [Suc n ..< Suc n + m]"
proof -
  have "n < n + Suc m"
    by simp
  then have "[n ..< n + Suc m] = n # [Suc n ..< n + Suc m]"
    by (rule upt_conv_Cons)
  moreover have "n + Suc m = Suc n + m"
    by simp
  ultimately show ?thesis
    by (simp only:)
qed

text \<open>
  Once the counter is set and no call is waiting to write it from the ledger, and as
  long as no \<open>sendTransaction\<close> is rejected, the nonces claimed by any interleaving of
  calls are the consecutive numbers from the counter on, one for each call.
\<close>

lemma claimed_nonces_contiguous_once_initialised:
  assumes "nextNonce ag = Some n" and "\<forall>cid. \<not> counter_pending (waiting ag cid)"
    and "\<forall>e\<in>set es. \<not> send_rejected e"
  shows "claimedNonces (snd (agent_run k ag es)) = [n ..< n + length (filter is_call es)]"
  using assms
proof (induction es arbitrary: ag n)
  case Nil
  then show ?case by simp
next
  case (Cons e es)
  from Cons.prems have ne: "\<not> send_rejected e" by simp
  note st = agent_step_initialised [OF Cons.prems(1,2) ne, of k]
  from Cons.prems(3) have rest: "\<forall>e\<in>set es. \<not> send_rejected e" by simp
  have ih: "claimedNonces (snd (agent_run k (fst (agent_step k ag e)) es)) =
        [(if is_call e then n + 1 else n) ..<
           (if is_call e then n + 1 else n) + length (filter is_call es)]"
    using st rest by (intro Cons.IH) auto
  show ?case
  proof (cases "is_call e")
    case True
    then have l: "length (filter is_call (e # es)) = Suc (length (filter is_call es))"
      by simp
    have "claimedNonces (snd (agent_run k ag (e # es))) =
          n # [Suc n ..< Suc n + length (filter is_call es)]"
      using True st ih
      by (simp add: snd_agent_run_Cons claimedNonces_append del: agent_run.simps)
    also have "\<dots> = [n ..< n + Suc (length (filter is_call es))]"
      by (rule upt_from_Suc [symmetric])
    finally show ?thesis
      by (simp only: l)
  next
    case False
    with st ih show ?thesis
      by (simp add: snd_agent_run_Cons claimedNonces_append del: agent_run.simps)
  qed
qed

lemma demo_addressToAccountId: "addressToAccountId demoPayTo = Some 1"
  by code_simp

text \<open>
  Claim C8 fails on the first payments of an agent. The counter starts as \<open>null\<close> and
  is fetched inside \<open>submitPayment\<close> with an \<open>await\<close>: two workers that enter before
  the first fetch has settled both write the fetched count and both claim it.
\<close>

theorem lazy_init_race_duplicate_nonce:
  "claimedNonces (snd (agent_run keccak256 newAgent
      [Call 1 demoPayTo, Call 2 demoPayTo,
       CountSettled 1 (Fulfilled 7), CountSettled 2 (Fulfilled 7)])) = [7, 7]"
  by (simp add: newAgent_def buildAndClaim_def claimAndSend_def demo_addressToAccountId)

end
